theory Spec2Isabelle
  imports Main "HOL-Library.Char_ord" "HOL-Library.List_Lexorder"
begin

section \<open>The kvs facade over a transactional engine\<close>

text \<open>
  The Go package \<open>kvs\<close> (src/kvs.go) wraps an embedded transactional engine (bolt) and
  the gob codec. The facade's five functions \<open>Open\<close>, \<open>Put\<close>, \<open>Get\<close>,
  \<open>Delete\<close> and \<open>Close\<close> are embedded below, line by line. The engine and the codec
  are imported packages whose code is not part of the repository: the engine calls the
  facade makes are modelled after the container the specification describes, and the
  codec is a pair of function parameters.
\<close>

subsection \<open>Bytes, errors and durations\<close>

text \<open>
  A Go \<open>string\<close> and a \<open>[]byte\<close> are both sequences of 8-bit bytes, and the conversions
  \<open>[]byte(key)\<close> and \<open>string(k)\<close> keep the bytes. Keys are ordered as the engine orders
  them: lexicographically on unsigned byte values.
\<close>

type_synonym bytes = string

text \<open>
  The facade's two sentinels (kvs.go lines 17-18), the errors the engine reports to it,
  the error a codec reports, and the panic of a method call through a nil pointer.
\<close>

datatype error =
    ErrNotFound
  | ErrBadValue
  | ErrDatabaseNotOpen
  | ErrTimeout
  | ErrBucketNameRequired
  | ErrKeyRequired
  | ErrKeyTooLarge
  | ErrValueTooLarge
  | IOError
  | EncodingError
  | NilPointerPanic

text \<open>The errors that come from the engine, as opposed to the facade or the codec.\<close>

fun engine_error :: "error \<Rightarrow> bool" where
  "engine_error ErrDatabaseNotOpen = True"
| "engine_error ErrTimeout = True"
| "engine_error ErrBucketNameRequired = True"
| "engine_error ErrKeyRequired = True"
| "engine_error ErrKeyTooLarge = True"
| "engine_error ErrValueTooLarge = True"
| "engine_error IOError = True"
| "engine_error ErrNotFound = False"
| "engine_error ErrBadValue = False"
| "engine_error EncodingError = False"
| "engine_error NilPointerPanic = False"

text \<open>Go's \<open>time.Duration\<close> counts nanoseconds.\<close>

type_synonym Duration = int

definition Millisecond :: Duration where
  "Millisecond = 1000000"

definition Second :: Duration where
  "Second = 1000 * Millisecond"

subsection \<open>The engine, as far as the facade calls it\<close>

text \<open>
  A container (bucket) holds entries, pairs of a key and a value, in ascending key
  order with every key at most once. A transaction sees the named containers of the
  backing file.
\<close>

type_synonym bucket = "(bytes \<times> bytes) list"

type_synonym tx = "bytes \<rightharpoonup> bucket"

record DB =
  opened :: bool
  buckets :: tx

text \<open>The options of the engine's open call; the facade sets only the timeout.\<close>

record Options =
  Timeout :: Duration

text \<open>
  What the surroundings decide when a backing file is opened: the file's containers
  (None when the file does not exist yet), the failure of opening, creating or
  validating the file if there is one, and for how long another process goes on holding
  the file's exclusive lock (0 when the lock is free).
\<close>

record env =
  backing_file :: "tx option"
  open_failure :: "error option"
  lock_held_for :: Duration

text \<open>
  Modelled from the spec: the engine's lock acquisition is not in src/. "acquires an
  exclusive process-level lock (failing with a Locked/timeout error if another process
  holds it past the timeout)"; a timeout of zero waits for the holder.
\<close>

definition flock :: "Duration \<Rightarrow> env \<Rightarrow> error option" where
  "flock timeout e =
     (if 0 < timeout \<and> timeout < lock_held_for e then Some ErrTimeout else None)"

text \<open>
  Modelled from the spec: the engine's open call is not in src/. It "opens or creates
  the backing file, acquires an exclusive process-level lock" and gives an open handle
  on the file's containers; a file that did not exist starts with none.
\<close>

definition bolt_Open :: "string \<Rightarrow> nat \<Rightarrow> Options \<Rightarrow> env \<Rightarrow> error + DB" where
  "bolt_Open path mode opts e =
     (case open_failure e of
        Some err \<Rightarrow> Inl err
      | None \<Rightarrow>
          (case flock (Timeout opts) e of
             Some err \<Rightarrow> Inl err
           | None \<Rightarrow>
               Inr \<lparr>opened = True,
                    buckets = (case backing_file e of None \<Rightarrow> Map.empty | Some bs \<Rightarrow> bs)\<rparr>))"

text \<open>
  Modelled from the spec: the engine's transactions are not in src/. A read-write
  transaction runs the closure on the containers and commits; "on engine-reported
  commit failure the write is not applied (atomic all-or-nothing)", and an error of the
  closure rolls back. The argument \<open>commit\<close> is what the engine reports at commit: None
  when the write is durable. "All data operations valid only in Open": a closed handle
  refuses the transaction.
\<close>

definition Update :: "DB \<Rightarrow> error option \<Rightarrow> (tx \<Rightarrow> error option \<times> tx) \<Rightarrow> error option \<times> DB" where
  "Update d commit fn =
     (if \<not> opened d then (Some ErrDatabaseNotOpen, d)
      else
        (case fn (buckets d) of
           (Some err, _) \<Rightarrow> (Some err, d)
         | (None, t') \<Rightarrow>
             (case commit of
                Some err \<Rightarrow> (Some err, d)
              | None \<Rightarrow> (None, d\<lparr>buckets := t'\<rparr>))))"

text \<open>
  Modelled from the spec: a read-only transaction (not in src/) runs the closure on the
  containers and cannot change them. The closure's captured variable, the caller's
  destination, is threaded through as \<open>s\<close>.
\<close>

definition View :: "DB \<Rightarrow> (tx \<Rightarrow> 's \<Rightarrow> error option \<times> 's) \<Rightarrow> 's \<Rightarrow> error option \<times> 's" where
  "View d fn s =
     (if \<not> opened d then (Some ErrDatabaseNotOpen, s) else fn (buckets d) s)"

text \<open>
  Modelled from the spec: the engine's container creation is not in src/. The container
  is "created if absent at open time"; an existing one is kept with its entries.
\<close>

definition CreateBucketIfNotExists :: "tx \<Rightarrow> bytes \<Rightarrow> error option \<times> tx" where
  "CreateBucketIfNotExists t name =
     (if name = [] then (Some ErrBucketNameRequired, t)
      else
        (case t name of
           Some b \<Rightarrow> (None, t)
         | None \<Rightarrow> (None, t(name \<mapsto> []))))"

text \<open>
  Modelled from the spec: the engine's lookup of a container by name is not in src/. It
  gives the "named sorted key-value container", or a nil pointer (None) when the file
  has none of that name.
\<close>

definition Tx_Bucket :: "tx \<Rightarrow> bytes \<Rightarrow> bucket option" where
  "Tx_Bucket t name = t name"

text \<open>
  Modelled from the spec: the engine's cursor is not in src/. The container is "a
  sorted structure", and a "sorted-order lookup" moves the cursor to the first entry
  whose key is not below the key sought. The cursor is the position of that entry.
\<close>

fun seek :: "bucket \<Rightarrow> bytes \<Rightarrow> nat" where
  "seek [] key = 0"
| "seek (e # es) key = (if fst e < key then Suc (seek es key) else 0)"

text \<open>
  Modelled from the spec: the engine's seek is not in src/. It gives the cursor and the
  entry under it, None (a nil key) when no key of the container is at or above the key
  sought.
\<close>

definition Cursor_Seek :: "bucket \<Rightarrow> bytes \<Rightarrow> nat \<times> (bytes \<times> bytes) option" where
  "Cursor_Seek b key =
     (let i = seek b key in (i, if i < length b then Some (b ! i) else None))"

text \<open>
  Modelled from the spec: the engine's delete at a cursor is not in src/. It "removes
  the entry" under the cursor and reports no error.
\<close>

definition Cursor_Delete :: "bucket \<Rightarrow> nat \<Rightarrow> error option \<times> bucket" where
  "Cursor_Delete b i = (None, take i b @ drop (Suc i) b)"

text \<open>
  Modelled from the spec: the engine's write of an entry is not in src/. It
  "creates-or-replaces the entry for key", at the key's place in the order: the first
  place whose key is not below the new key.
\<close>

fun node_put :: "bytes \<Rightarrow> bytes \<Rightarrow> bucket \<Rightarrow> bucket" where
  "node_put key val [] = [(key, val)]"
| "node_put key val (e # es) =
     (if fst e < key then e # node_put key val es
      else if fst e = key then (key, val) # es
      else (key, val) # e # es)"

text \<open>
  Modelled from the spec: the engine's checks before a write are not in src/. An
  entry's key is a "non-empty byte sequence", so the empty key is refused; the limits on
  the lengths of keys and values are the engine's own (32768 bytes and 2147483646 bytes).
\<close>

definition MaxKeySize :: nat where
  "MaxKeySize = 32768"

definition MaxValueSize :: nat where
  "MaxValueSize = 2147483646"

definition Bucket_Put :: "bucket \<Rightarrow> bytes \<Rightarrow> bytes \<Rightarrow> error + bucket" where
  "Bucket_Put b key val =
     (if length key = 0 then Inl ErrKeyRequired
      else if MaxKeySize < length key then Inl ErrKeyTooLarge
      else if MaxValueSize < length val then Inl ErrValueTooLarge
      else Inr (node_put key val b))"

subsection \<open>The facade (src/kvs.go)\<close>

record KVStore =
  db :: DB

definition bucketName :: bytes where
  "bucketName = ''kvs''"

text \<open>
  \<open>Open\<close> (lines 25-42): the options carry a timeout of 50 milliseconds; the engine
  opens the file with mode 0640, and one read-write transaction creates the container
  if it is not there. The transaction's commit result is the argument \<open>commit\<close>.
\<close>

definition Open :: "string \<Rightarrow> env \<Rightarrow> error option \<Rightarrow> error + KVStore" where
  "Open path e commit =
     (let opts = \<lparr>Timeout = 50 * Millisecond\<rparr> in
      case bolt_Open path 416 opts e of
        Inl err \<Rightarrow> Inl err
      | Inr d \<Rightarrow>
          (case Update d commit (\<lambda>t. CreateBucketIfNotExists t bucketName) of
             (Some err, _) \<Rightarrow> Inl err
           | (None, d') \<Rightarrow> Inr \<lparr>db = d'\<rparr>))"

text \<open>
  \<open>Put\<close> (lines 46-57). The value is an interface: None is Go's nil. \<open>Encode\<close> is the
  gob encoder on the caller's values. The closure calls the container's put through the
  pointer the lookup returns, which panics when the pointer is nil.
\<close>

definition Put ::
  "('v \<Rightarrow> error + bytes) \<Rightarrow> KVStore \<Rightarrow> error option \<Rightarrow> string \<Rightarrow> 'v option
     \<Rightarrow> error option \<times> KVStore" where
  "Put Encode kvs commit key val =
     (case val of
        None \<Rightarrow> (Some ErrBadValue, kvs)
      | Some x \<Rightarrow>
          (case Encode x of
             Inl err \<Rightarrow> (Some err, kvs)
           | Inr buf \<Rightarrow>
               (case Update (db kvs) commit
                       (\<lambda>t. case Tx_Bucket t bucketName of
                               None \<Rightarrow> (Some NilPointerPanic, t)
                             | Some b \<Rightarrow>
                                 (case Bucket_Put b key buf of
                                    Inl err \<Rightarrow> (Some err, t)
                                  | Inr b' \<Rightarrow> (None, t(bucketName \<mapsto> b')))) of
                  (r, d') \<Rightarrow> (r, kvs\<lparr>db := d'\<rparr>))))"

text \<open>
  \<open>Get\<close> (lines 62-74). The destination is an interface holding a pointer: None is nil
  (no destination), \<open>Some x\<close> a destination whose content is \<open>x\<close>. \<open>Decode\<close> is the gob
  decoder: from the stored bytes and the destination's content it gives its error, if
  any, and the content it leaves in the destination. The result is the error and the
  destination afterwards.
\<close>

definition Get ::
  "(bytes \<Rightarrow> 'd \<Rightarrow> error option \<times> 'd) \<Rightarrow> KVStore \<Rightarrow> string \<Rightarrow> 'd option
     \<Rightarrow> error option \<times> 'd option" where
  "Get Decode kvs key val =
     View (db kvs)
       (\<lambda>t dst. case Tx_Bucket t bucketName of
                  None \<Rightarrow> (Some NilPointerPanic, dst)
                | Some b \<Rightarrow>
                    (case snd (Cursor_Seek b key) of
                       None \<Rightarrow> (Some ErrNotFound, dst)
                     | Some (k, v) \<Rightarrow>
                         if k \<noteq> key then (Some ErrNotFound, dst)
                         else
                           (case dst of
                              None \<Rightarrow> (None, dst)
                            | Some x \<Rightarrow>
                                (case Decode v x of (r, y) \<Rightarrow> (r, Some y)))))
       val"

text \<open>\<open>Delete\<close> (lines 78-87).\<close>

definition Delete :: "KVStore \<Rightarrow> error option \<Rightarrow> string \<Rightarrow> error option \<times> KVStore" where
  "Delete kvs commit key =
     (case Update (db kvs) commit
             (\<lambda>t. case Tx_Bucket t bucketName of
                     None \<Rightarrow> (Some NilPointerPanic, t)
                   | Some b \<Rightarrow>
                       (case Cursor_Seek b key of
                          (i, None) \<Rightarrow> (Some ErrNotFound, t)
                        | (i, Some (k, v)) \<Rightarrow>
                            if k \<noteq> key then (Some ErrNotFound, t)
                            else
                              (case Cursor_Delete b i of
                                 (r, b') \<Rightarrow> (r, t(bucketName \<mapsto> b'))))) of
        (r, d') \<Rightarrow> (r, kvs\<lparr>db := d'\<rparr>))"

text \<open>\<open>Close\<close> (lines 89-91) hands the handle back to the engine; the file keeps its containers.\<close>

definition Close :: "KVStore \<Rightarrow> error option \<times> KVStore" where
  "Close kvs = (None, kvs\<lparr>db := (db kvs)\<lparr>opened := False\<rparr>\<rparr>)"

subsection \<open>Observing a store\<close>

text \<open>The facade's container, its entries, and the order the engine keeps them in.\<close>

definition container :: "KVStore \<Rightarrow> bucket option" where
  "container kvs = Tx_Bucket (buckets (db kvs)) bucketName"

definition entries :: "KVStore \<Rightarrow> bucket" where
  "entries kvs = (case container kvs of None \<Rightarrow> [] | Some b \<Rightarrow> b)"

definition sorted_bucket :: "bucket \<Rightarrow> bool" where
  "sorted_bucket b = sorted_wrt (<) (map fst b)"

definition set_container :: "KVStore \<Rightarrow> bucket \<Rightarrow> KVStore" where
  "set_container kvs b = kvs\<lparr>db := (db kvs)\<lparr>buckets := (buckets (db kvs))(bucketName \<mapsto> b)\<rparr>\<rparr>"

text \<open>
  Sample data: a backing file that does not exist and whose lock is free, an open store
  whose container holds the given entries, and a codec for strings that stores the bytes
  as they are.
\<close>

definition fresh_env :: env where
  "fresh_env = \<lparr>backing_file = None, open_failure = None, lock_held_for = 0\<rparr>"

definition store_with :: "bucket \<Rightarrow> KVStore" where
  "store_with b = \<lparr>db = \<lparr>opened = True, buckets = [''kvs'' \<mapsto> b]\<rparr>\<rparr>"

definition str_Encode :: "string \<Rightarrow> error + bytes" where
  "str_Encode s = Inr s"

definition str_Decode :: "bytes \<Rightarrow> string \<Rightarrow> error option \<times> string" where
  "str_Decode buf d = (None, buf)"

subsection \<open>Histories of calls\<close>

text \<open>
  The calls that can change a store, each with the commit result the engine will
  report, and the run of a list of calls from a store: the log pairs every call with
  the error it returned. \<open>Get\<close> runs in a read-only transaction and returns no store.
\<close>

datatype 'v call =
    CallPut string "'v option" "error option"
  | CallDelete string "error option"

fun do_call :: "('v \<Rightarrow> error + bytes) \<Rightarrow> KVStore \<Rightarrow> 'v call \<Rightarrow> error option \<times> KVStore" where
  "do_call Encode kvs (CallPut key val commit) = Put Encode kvs commit key val"
| "do_call Encode kvs (CallDelete key commit) = Delete kvs commit key"

fun run ::
  "('v \<Rightarrow> error + bytes) \<Rightarrow> KVStore \<Rightarrow> 'v call list \<Rightarrow> ('v call \<times> error option) list \<times> KVStore" where
  "run Encode kvs [] = ([], kvs)"
| "run Encode kvs (c # cs) =
     (case do_call Encode kvs c of
        (r, kvs') \<Rightarrow> (case run Encode kvs' cs of (log, kvs'') \<Rightarrow> ((c, r) # log, kvs'')))"

text \<open>A logged call mutated \<open>key\<close> when it was a Put or a Delete of that key and succeeded.\<close>

fun mutated :: "string \<Rightarrow> 'v call \<times> error option \<Rightarrow> bool" where
  "mutated key (CallPut k val commit, r) = (k = key \<and> r = None)"
| "mutated key (CallDelete k commit, r) = (k = key \<and> r = None)"

fun is_delete :: "'v call \<times> error option \<Rightarrow> bool" where
  "is_delete (CallDelete k commit, r) = True"
| "is_delete (CallPut k val commit, r) = False"

text \<open>
  The key was never put, or its last mutation was a successful Delete: among the logged
  calls that mutated the key, there is none or the last one is a Delete.
\<close>

definition never_put_or_deleted :: "string \<Rightarrow> ('v call \<times> error option) list \<Rightarrow> bool" where
  "never_put_or_deleted key log =
     (case filter (mutated key) log of [] \<Rightarrow> True | m # ms \<Rightarrow> is_delete (last (m # ms)))"

subsection \<open>Reachable stores\<close>

text \<open>
  The stores a program can hold: \<open>Open\<close> on a file that does not exist, \<open>Open\<close> on the
  file an earlier store left behind, and the results of \<open>Put\<close>, \<open>Delete\<close> and \<open>Close\<close>.
\<close>

inductive reachable :: "('v \<Rightarrow> error + bytes) \<Rightarrow> KVStore \<Rightarrow> bool"
  for Encode :: "'v \<Rightarrow> error + bytes" where
  open_new:
    "backing_file e = None \<Longrightarrow> Open path e commit = Inr kvs \<Longrightarrow> reachable Encode kvs"
| open_again:
    "reachable Encode kvs0 \<Longrightarrow> backing_file e = Some (buckets (db kvs0)) \<Longrightarrow>
     Open path e commit = Inr kvs \<Longrightarrow> reachable Encode kvs"
| after_Put:
    "reachable Encode kvs \<Longrightarrow> Put Encode kvs commit key val = (r, kvs') \<Longrightarrow>
     reachable Encode kvs'"
| after_Delete:
    "reachable Encode kvs \<Longrightarrow> Delete kvs commit key = (r, kvs') \<Longrightarrow> reachable Encode kvs'"
| after_Close:
    "reachable Encode kvs \<Longrightarrow> Close kvs = (r, kvs') \<Longrightarrow> reachable Encode kvs'"

text \<open>
  The invariant of the reachable stores: the container exists, its keys ascend
  strictly, and none of them is empty.
\<close>

definition store_inv :: "KVStore \<Rightarrow> bool" where
  "store_inv kvs =
     (case container kvs of
        None \<Rightarrow> False
      | Some b \<Rightarrow> sorted_bucket b \<and> list_all (\<lambda>e. fst e \<noteq> []) b)"

subsection \<open>The specification's variants\<close>

text \<open>
  The specification's open operation, "Open(path, lockTimeout) -> (Store, Error)": the
  caller's timeout bounds the lock acquisition.
\<close>

definition spec_Open :: "string \<Rightarrow> Duration \<Rightarrow> env \<Rightarrow> error option \<Rightarrow> error + KVStore" where
  "spec_Open path lockTimeout e commit =
     (case bolt_Open path 416 \<lparr>Timeout = lockTimeout\<rparr> e of
        Inl err \<Rightarrow> Inl err
      | Inr d \<Rightarrow>
          (case Update d commit (\<lambda>t. CreateBucketIfNotExists t bucketName) of
             (Some err, _) \<Rightarrow> Inl err
           | (None, d') \<Rightarrow> Inr \<lparr>db = d'\<rparr>))"

text \<open>
  The specification's "direct exact-match lookup": the value stored under exactly this
  key, or \<open>NotFound\<close>.
\<close>

definition exact_match :: "bucket \<Rightarrow> bytes \<Rightarrow> error + bytes" where
  "exact_match b key = (case map_of b key of None \<Rightarrow> Inl ErrNotFound | Some v \<Rightarrow> Inr v)"

text \<open>\<open>Get\<close> and \<open>Delete\<close> as they read with the exact-match lookup in place of the cursor.\<close>

definition spec_Get ::
  "(bytes \<Rightarrow> 'd \<Rightarrow> error option \<times> 'd) \<Rightarrow> bucket \<Rightarrow> string \<Rightarrow> 'd option
     \<Rightarrow> error option \<times> 'd option" where
  "spec_Get Decode b key dst =
     (case exact_match b key of
        Inl err \<Rightarrow> (Some err, dst)
      | Inr v \<Rightarrow>
          (case dst of
             None \<Rightarrow> (None, dst)
           | Some x \<Rightarrow> (case Decode v x of (r, y) \<Rightarrow> (r, Some y))))"

definition spec_Delete :: "bucket \<Rightarrow> error option \<Rightarrow> string \<Rightarrow> error option \<times> bucket" where
  "spec_Delete b commit key =
     (case exact_match b key of
        Inl err \<Rightarrow> (Some err, b)
      | Inr v \<Rightarrow>
          (case commit of
             Some err \<Rightarrow> (Some err, b)
           | None \<Rightarrow> (None, filter (\<lambda>e. fst e \<noteq> key) b)))"

section \<open>Properties of the engine model and of the facade\<close>

lemma seek_le: "seek b k \<le> length b"
  by (induction b) auto

lemma seek_node_put: "seek (node_put k v b) k = seek b k"
  by (induction b) auto

lemma nth_seek_node_put: "node_put k v b ! seek b k = (k, v)"
  by (induction b) auto

lemma seek_lt_node_put: "seek b k < length (node_put k v b)"
  by (induction b) auto

lemma keys_node_put: "fst ` set (node_put k v b) = insert k (fst ` set b)"
  by (induction b) auto

lemma sorted_node_put: "sorted_bucket b \<Longrightarrow> sorted_bucket (node_put k v b)"
  unfolding sorted_bucket_def by (induction b) (auto simp: keys_node_put)

lemma map_of_node_put: "map_of (node_put k v b) = (map_of b)(k \<mapsto> v)"
  by (induction b) (auto simp: fun_eq_iff)

lemma seek_absent: "k \<notin> fst ` set b \<Longrightarrow> seek b k < length b \<Longrightarrow> fst (b ! seek b k) \<noteq> k"
  by (induction b) (auto split: if_splits)

lemma seek_present:
  "sorted_bucket b \<Longrightarrow> map_of b k = Some v \<Longrightarrow> seek b k < length b \<and> b ! seek b k = (k, v)"
  unfolding sorted_bucket_def
proof (induction b)
  case Nil
  then show ?case by simp
next
  case (Cons e es)
  show ?case
  proof (cases "fst e < k")
    case True
    with Cons show ?thesis by (auto split: if_splits)
  next
    case False
    have "fst e = k"
    proof (rule ccontr)
      assume ne: "fst e \<noteq> k"
      with Cons.prems have "map_of es k = Some v" by (cases e) (auto split: if_splits)
      then have "k \<in> fst ` set es" by (force dest: map_of_SomeD)
      with Cons.prems have "fst e < k" by auto
      with False show False by simp
    qed
    with Cons.prems show ?thesis by (cases e) auto
  qed
qed

lemma delete_at_seek:
  "sorted_bucket b \<Longrightarrow> seek b k < length b \<Longrightarrow> fst (b ! seek b k) = k \<Longrightarrow>
   take (seek b k) b @ drop (Suc (seek b k)) b = filter (\<lambda>e. fst e \<noteq> k) b"
  unfolding sorted_bucket_def
proof (induction b)
  case Nil
  then show ?case by simp
next
  case (Cons e es)
  show ?case
  proof (cases "fst e < k")
    case True
    with Cons show ?thesis by auto
  next
    case False
    with Cons.prems have ek: "fst e = k" by simp
    with Cons.prems have "\<forall>x\<in>set es. fst x \<noteq> k" by auto
    then have "filter (\<lambda>e. fst e \<noteq> k) es = es" by (simp add: filter_id_conv)
    with ek show ?thesis by simp
  qed
qed

lemma sorted_filter_key: "sorted_bucket b \<Longrightarrow> sorted_bucket (filter (\<lambda>e. fst e \<noteq> k) b)"
  unfolding sorted_bucket_def by (induction b) auto

lemma map_of_filter_key: "map_of (filter (\<lambda>e. fst e \<noteq> k) b) = (map_of b)(k := None)"
  by (induction b) (auto simp: fun_eq_iff)

lemma map_of_keys: "(map_of b k = None) = (k \<notin> fst ` set b)"
  by (simp add: map_of_eq_None_iff)

text \<open>The seek-then-compare of Get and Delete, on a sorted container.\<close>

lemma seek_compare:
  assumes "sorted_bucket b"
  shows "(case snd (Cursor_Seek b key) of None \<Rightarrow> None
          | Some (k, v) \<Rightarrow> if k \<noteq> key then None else Some v) = map_of b key"
proof (cases "map_of b key")
  case None
  then have "key \<notin> fst ` set b" by (simp add: map_of_keys)
  from seek_absent [OF this] None show ?thesis
    by (auto simp: Cursor_Seek_def Let_def split: prod.splits)
next
  case (Some v)
  from seek_present [OF assms Some] Some show ?thesis
    by (simp add: Cursor_Seek_def Let_def)
qed

lemma Put_success:
  assumes "Put Encode kvs commit key (Some v) = (None, kvs')"
  shows "\<exists>buf b. Encode v = Inr buf \<and> opened (db kvs) \<and> container kvs = Some b \<and> key \<noteq> []
           \<and> commit = None \<and> kvs' = set_container kvs (node_put key buf b)"
  using assms
  by (auto simp: Put_def Update_def Bucket_Put_def container_def set_container_def
           split: sum.splits option.splits if_splits prod.splits)

lemma Delete_success:
  assumes "Delete kvs commit key = (None, kvs')"
  shows "\<exists>b. opened (db kvs) \<and> container kvs = Some b \<and> seek b key < length b
           \<and> fst (b ! seek b key) = key \<and> commit = None
           \<and> kvs' = set_container kvs (take (seek b key) b @ drop (Suc (seek b key)) b)"
  using assms
  by (auto simp: Delete_def Update_def Cursor_Seek_def Cursor_Delete_def Let_def container_def
                 set_container_def
           split: sum.splits option.splits if_splits prod.splits)

lemma Get_open:
  assumes "opened (db kvs)" and "container kvs = Some b"
  shows "Get Decode kvs key dst =
     (case snd (Cursor_Seek b key) of
        None \<Rightarrow> (Some ErrNotFound, dst)
      | Some (k, v) \<Rightarrow>
          if k \<noteq> key then (Some ErrNotFound, dst)
          else (case dst of None \<Rightarrow> (None, dst)
                | Some x \<Rightarrow> (case Decode v x of (r, y) \<Rightarrow> (r, Some y))))"
  using assms by (simp add: Get_def View_def container_def)

lemma container_set_container [simp]: "container (set_container kvs b) = Some b"
  by (simp add: container_def set_container_def Tx_Bucket_def)

lemma opened_set_container [simp]: "opened (db (set_container kvs b)) = opened (db kvs)"
  by (simp add: set_container_def)

lemma Put_cases:
  assumes "Put Encode kvs commit key val = (r, kvs')"
  shows "(r \<noteq> None \<and> kvs' = kvs) \<or>
         (r = None \<and> (\<exists>v buf b. val = Some v \<and> Encode v = Inr buf \<and> opened (db kvs)
            \<and> container kvs = Some b \<and> key \<noteq> [] \<and> commit = None
            \<and> kvs' = set_container kvs (node_put key buf b)))"
  using assms
  by (auto simp: Put_def Update_def Bucket_Put_def container_def set_container_def
           split: sum.splits option.splits if_splits prod.splits)

lemma Delete_cases:
  assumes "Delete kvs commit key = (r, kvs')"
  shows "(r \<noteq> None \<and> kvs' = kvs) \<or>
         (r = None \<and> (\<exists>b. opened (db kvs) \<and> container kvs = Some b \<and> seek b key < length b
            \<and> fst (b ! seek b key) = key \<and> commit = None
            \<and> kvs' = set_container kvs (take (seek b key) b @ drop (Suc (seek b key)) b)))"
  using assms
  by (auto simp: Delete_def Update_def Cursor_Seek_def Cursor_Delete_def Let_def container_def
                 set_container_def
           split: sum.splits option.splits if_splits prod.splits)

lemma Delete_open:
  assumes "opened (db kvs)" and "container kvs = Some b"
  shows "Delete kvs commit key =
     (if seek b key < length b \<and> fst (b ! seek b key) = key
      then (case commit of
              Some err \<Rightarrow> (Some err, kvs)
            | None \<Rightarrow> (None, set_container kvs (take (seek b key) b @ drop (Suc (seek b key)) b)))
      else (Some ErrNotFound, kvs))"
  using assms
  by (auto simp: Delete_def Update_def Cursor_Seek_def Cursor_Delete_def Let_def container_def
                 set_container_def
           split: sum.splits option.splits if_splits prod.splits)

lemma entries_set_container [simp]: "entries (set_container kvs b) = b"
  by (simp add: entries_def)

lemma nonempty_keys_node_put:
  assumes "list_all (\<lambda>e. fst e \<noteq> []) b" and "key \<noteq> []"
  shows "list_all (\<lambda>e. fst e \<noteq> []) (node_put key buf b)"
proof -
  have "\<forall>k \<in> fst ` set (node_put key buf b). k \<noteq> []"
    using assms by (auto simp: keys_node_put list_all_iff)
  then show ?thesis by (auto simp: list_all_iff)
qed

lemma nonempty_keys_filter:
  "list_all (\<lambda>e. fst e \<noteq> []) b \<Longrightarrow> list_all (\<lambda>e. fst e \<noteq> []) (filter P b)"
  by (auto simp: list_all_iff)

lemma store_inv_Put:
  assumes "store_inv kvs" and "Put Encode kvs commit key val = (r, kvs')"
  shows "store_inv kvs'"
  using Put_cases [OF assms(2)] assms(1)
  by (auto simp: store_inv_def sorted_node_put nonempty_keys_node_put split: option.splits)

lemma store_inv_Delete:
  assumes "store_inv kvs" and "Delete kvs commit key = (r, kvs')"
  shows "store_inv kvs'"
  using Delete_cases [OF assms(2)] assms(1)
  by (auto simp: store_inv_def delete_at_seek sorted_filter_key nonempty_keys_filter
           split: option.splits)

lemma store_inv_Close:
  assumes "store_inv kvs" and "Close kvs = (r, kvs')"
  shows "store_inv kvs'"
  using assms by (auto simp: Close_def store_inv_def container_def)

lemma Open_cases:
  assumes "Open path e commit = Inr kvs"
  shows "opened (db kvs) \<and>
         buckets (db kvs) =
           (let t = (case backing_file e of None \<Rightarrow> Map.empty | Some bs \<Rightarrow> bs)
            in case t bucketName of None \<Rightarrow> t(bucketName \<mapsto> []) | Some b \<Rightarrow> t)"
  using assms
  by (auto simp: Open_def bolt_Open_def Update_def CreateBucketIfNotExists_def Let_def
           split: sum.splits option.splits if_splits prod.splits)

lemma store_inv_Open_new:
  assumes "backing_file e = None" and "Open path e commit = Inr kvs"
  shows "store_inv kvs \<and> entries kvs = []"
  using Open_cases [OF assms(2)] assms(1)
  by (simp add: store_inv_def container_def entries_def Tx_Bucket_def sorted_bucket_def)

lemma store_inv_Open_again:
  assumes "store_inv kvs0" and "backing_file e = Some (buckets (db kvs0))"
    and "Open path e commit = Inr kvs"
  shows "store_inv kvs"
  using Open_cases [OF assms(3)] assms(1,2)
  by (auto simp: store_inv_def container_def Tx_Bucket_def Let_def split: option.splits)

lemma reachable_store_inv: "reachable Encode kvs \<Longrightarrow> store_inv kvs"
proof (induction rule: reachable.induct)
  case (open_new e path commit kvs)
  then show ?case by (simp add: store_inv_Open_new)
next
  case (open_again kvs0 e path commit kvs)
  then show ?case by (blast intro: store_inv_Open_again)
next
  case (after_Put kvs commit key val r kvs')
  then show ?case by (blast intro: store_inv_Put)
next
  case (after_Delete kvs commit key r kvs')
  then show ?case by (blast intro: store_inv_Delete)
next
  case (after_Close kvs r kvs')
  then show ?case by (blast intro: store_inv_Close)
qed

lemma keys_filter_key: "fst ` set (filter (\<lambda>e. fst e \<noteq> k) b) = fst ` set b - {k}"
  by auto

lemma Get_absent:
  assumes "opened (db kvs)" and "container kvs = Some b" and "key \<notin> fst ` set b"
  shows "Get Decode kvs key dst = (Some ErrNotFound, dst)"
  using seek_absent [OF assms(3)]
  by (auto simp: Get_open [OF assms(1,2)] Cursor_Seek_def Let_def split: prod.splits)

lemma Delete_absent:
  assumes "opened (db kvs)" and "container kvs = Some b" and "key \<notin> fst ` set b"
  shows "Delete kvs commit key = (Some ErrNotFound, kvs)"
  using seek_absent [OF assms(3)]
  by (auto simp: Delete_open [OF assms(1,2)])

lemma seek_present_key:
  assumes "sorted_bucket b" and "key \<in> fst ` set b"
  shows "seek b key < length b \<and> fst (b ! seek b key) = key"
proof -
  from assms(2) obtain v where "map_of b key = Some v"
    by (meson map_of_keys not_Some_eq)
  from seek_present [OF assms(1) this] show ?thesis by simp
qed

text \<open>One call: the store stays open and well formed, and the key's presence follows the call.\<close>

lemma do_call_keys:
  assumes op: "opened (db kvs)" and inv: "store_inv kvs"
    and call: "do_call Encode kvs c = (r, kvs')"
  shows "opened (db kvs') \<and> store_inv kvs' \<and>
         (key \<in> fst ` set (entries kvs') \<longleftrightarrow>
            (if mutated key (c, r) then \<not> is_delete (c, r) else key \<in> fst ` set (entries kvs)))"
proof (cases c)
  case (CallPut k val commit)
  with call have put: "Put Encode kvs commit k val = (r, kvs')" by simp
  from store_inv_Put [OF inv put] have "store_inv kvs'" .
  moreover from Put_cases [OF put] op have "opened (db kvs')" by auto
  moreover from Put_cases [OF put]
  have "key \<in> fst ` set (entries kvs') \<longleftrightarrow>
          (if k = key \<and> r = None then True else key \<in> fst ` set (entries kvs))"
  proof (elim disjE conjE exE)
    assume "r \<noteq> None" and "kvs' = kvs"
    then show ?thesis by auto
  next
    fix v buf b
    assume "r = None" and "container kvs = Some b"
      and "kvs' = set_container kvs (node_put k buf b)"
    then show ?thesis by (simp add: keys_node_put entries_def)
  qed
  ultimately show ?thesis using CallPut by simp
next
  case (CallDelete k commit)
  with call have del: "Delete kvs commit k = (r, kvs')" by simp
  from store_inv_Delete [OF inv del] have "store_inv kvs'" .
  moreover from Delete_cases [OF del] op have "opened (db kvs')" by auto
  moreover from Delete_cases [OF del]
  have "key \<in> fst ` set (entries kvs') \<longleftrightarrow>
          (if k = key \<and> r = None then False else key \<in> fst ` set (entries kvs))"
  proof (elim disjE conjE exE)
    assume "r \<noteq> None" and "kvs' = kvs"
    then show ?thesis by auto
  next
    fix b
    assume r: "r = None" and b: "container kvs = Some b"
      and at: "seek b k < length b" "fst (b ! seek b k) = k"
      and kvs': "kvs' = set_container kvs (take (seek b k) b @ drop (Suc (seek b k)) b)"
    from inv b have "sorted_bucket b" by (simp add: store_inv_def)
    from delete_at_seek [OF this at] kvs' r b show ?thesis
      by (auto simp: entries_def)
  qed
  ultimately show ?thesis using CallDelete by simp
qed

lemma run_keys:
  assumes "opened (db kvs0)" and "store_inv kvs0" and "run Encode kvs0 cs = (log, kvs)"
  shows "opened (db kvs) \<and> store_inv kvs \<and>
         (key \<in> fst ` set (entries kvs) \<longleftrightarrow>
            (case filter (mutated key) log of
               [] \<Rightarrow> key \<in> fst ` set (entries kvs0)
             | m # ms \<Rightarrow> \<not> is_delete (last (m # ms))))"
  using assms
proof (induction cs arbitrary: kvs0 log)
  case Nil
  then show ?case by simp
next
  case (Cons c cs)
  obtain r kvs1 where c: "do_call Encode kvs0 c = (r, kvs1)" by (cases "do_call Encode kvs0 c")
  obtain log1 kvs2 where rest: "run Encode kvs1 cs = (log1, kvs2)"
    by (cases "run Encode kvs1 cs")
  from Cons.prems(3) c rest have log: "log = (c, r) # log1" and kvs: "kvs2 = kvs" by simp_all
  from do_call_keys [OF Cons.prems(1,2) c, of key]
  have op1: "opened (db kvs1)" and inv1: "store_inv kvs1"
    and keys1: "key \<in> fst ` set (entries kvs1) \<longleftrightarrow>
            (if mutated key (c, r) then \<not> is_delete (c, r) else key \<in> fst ` set (entries kvs0))"
    by simp_all
  from Cons.IH [OF op1 inv1 rest [unfolded kvs]] keys1 show ?case
    unfolding log by (auto split: list.splits)
qed

lemmas facade_defs =
  Open_def bolt_Open_def flock_def Update_def View_def CreateBucketIfNotExists_def
  Tx_Bucket_def Cursor_Seek_def Cursor_Delete_def Bucket_Put_def Put_def Get_def Delete_def
  Close_def bucketName_def MaxKeySize_def MaxValueSize_def Millisecond_def Second_def

lemmas sample_defs = store_with_def fresh_env_def str_Encode_def str_Decode_def

text \<open>After a successful Put, Get of the same key decodes the bytes the encoder gave.\<close>

lemma Get_after_Put:
  assumes "Put Encode kvs commit key (Some v) = (None, kvs')"
  shows "\<exists>buf. Encode v = Inr buf \<and>
           Get Decode kvs' key (Some d) = (case Decode buf d of (r, y) \<Rightarrow> (r, Some y))"
proof -
  from Put_success [OF assms] obtain buf b where
    enc: "Encode v = Inr buf" and op: "opened (db kvs)"
    and kvs': "kvs' = set_container kvs (node_put key buf b)"
    by blast
  have "Get Decode kvs' key (Some d) = (case Decode buf d of (r, y) \<Rightarrow> (r, Some y))"
    unfolding kvs'
    by (subst Get_open [where b = "node_put key buf b"])
       (simp_all add: op Cursor_Seek_def Let_def seek_node_put seek_lt_node_put nth_seek_node_put)
  with enc show ?thesis by blast
qed

lemma count_key_sorted:
  "sorted_bucket b \<Longrightarrow> key \<in> fst ` set b \<Longrightarrow> length (filter (\<lambda>e. fst e = key) b) = 1"
  unfolding sorted_bucket_def
proof (induction b)
  case Nil
  then show ?case by simp
next
  case (Cons e es)
  show ?case
  proof (cases "fst e = key")
    case True
    with Cons.prems have "\<forall>x\<in>set es. fst x \<noteq> key" by auto
    then have "filter (\<lambda>e. fst e = key) es = []" by (simp add: filter_empty_conv)
    with True show ?thesis by simp
  next
    case False
    with Cons show ?thesis by auto
  qed
qed

lemma count_key_node_put:
  "sorted_bucket b \<Longrightarrow> length (filter (\<lambda>e. fst e = key) (node_put key buf b)) = 1"
  by (rule count_key_sorted) (simp_all add: sorted_node_put keys_node_put)

lemma set_container_same: "container kvs = Some b \<Longrightarrow> set_container kvs b = kvs"
  by (simp add: container_def set_container_def Tx_Bucket_def map_upd_triv)

lemma container_Open:
  assumes "Open path e commit = Inr kvs"
  shows "container kvs \<noteq> None"
  using Open_cases [OF assms]
  by (auto simp: container_def Tx_Bucket_def Let_def split: option.splits)

lemma container_Put:
  assumes "container kvs \<noteq> None"
  shows "container (snd (Put Encode kvs commit key val)) \<noteq> None"
proof -
  obtain r kvs' where p: "Put Encode kvs commit key val = (r, kvs')"
    by (cases "Put Encode kvs commit key val")
  from Put_cases [OF p] assms p show ?thesis by auto
qed

lemma container_Delete:
  assumes "container kvs \<noteq> None"
  shows "container (snd (Delete kvs commit key)) \<noteq> None"
proof -
  obtain r kvs' where p: "Delete kvs commit key = (r, kvs')"
    by (cases "Delete kvs commit key")
  from Delete_cases [OF p] assms p show ?thesis by auto
qed

lemma container_Close:
  assumes "container kvs \<noteq> None"
  shows "container (snd (Close kvs)) \<noteq> None"
  using assms by (simp add: Close_def container_def)

lemma reachable_container: "reachable Encode kvs \<Longrightarrow> container kvs \<noteq> None"
  by (drule reachable_store_inv) (auto simp: store_inv_def split: option.splits)

lemma reachable_sample: "reachable str_Encode (store_with [(''a'', ''hello'')])"
proof -
  have r0: "reachable str_Encode (store_with [])"
    by (rule reachable.open_new [where e = fresh_env and path = "''test.db''" and commit = None])
       (simp_all add: facade_defs sample_defs)
  show ?thesis
    by (rule reachable.after_Put [OF r0, where commit = None and key = "''a''"
                and val = "Some ''hello''" and r = None])
       (simp add: facade_defs sample_defs)
qed

section \<open>The claims\<close>

text \<open>
  C1. For every key and every non-nil value \<open>v\<close>: when \<open>Put\<close> of \<open>v\<close> under the key
  succeeds (which it does only on an open store), the value was encoded, and \<open>Get\<close> of
  the key into a destination returns what the decoder returns on the encoding of \<open>v\<close>;
  so where the codec decodes its encoding of \<open>v\<close> without error, \<open>Get\<close> succeeds and the
  destination holds the decoded value \<open>y\<close>, the value decode-equal to \<open>v\<close>.
\<close>

theorem Put_Get_roundtrip:
  assumes put: "Put Encode kvs commit key (Some v) = (None, kvs')"
  shows "\<exists>buf. Encode v = Inr buf
           \<and> Get Decode kvs' key (Some d) = (case Decode buf d of (r, y) \<Rightarrow> (r, Some y))
           \<and> (\<forall>y. Decode buf d = (None, y) \<longrightarrow> Get Decode kvs' key (Some d) = (None, Some y))"
proof -
  from Get_after_Put [OF put, of Decode d] obtain buf where
    enc: "Encode v = Inr buf"
    and get: "Get Decode kvs' key (Some d) = (case Decode buf d of (r, y) \<Rightarrow> (r, Some y))"
    by blast
  from get have "\<forall>y. Decode buf d = (None, y) \<longrightarrow> Get Decode kvs' key (Some d) = (None, Some y)"
    by simp
  with enc get show ?thesis by blast
qed

theorem Put_Get_roundtrip_witness:
  "Put str_Encode (store_with []) None ''a'' (Some ''hello'')
     = (None, store_with [(''a'', ''hello'')])
   \<and> str_Encode ''hello'' = Inr ''hello''
   \<and> str_Decode ''hello'' [] = (None, ''hello'')
   \<and> Get str_Decode (store_with [(''a'', ''hello'')]) ''a'' (Some [])
     = (None, Some ''hello'')"
proof -
  have put: "Put str_Encode (store_with []) None ''a'' (Some ''hello'')
               = (None, store_with [(''a'', ''hello'')])"
    by (simp add: facade_defs sample_defs)
  have enc: "str_Encode ''hello'' = Inr ''hello''"
    by (simp add: str_Encode_def)
  have dec: "str_Decode ''hello'' [] = (None, ''hello'')"
    by (simp add: str_Decode_def)
  from Put_Get_roundtrip [OF put, of str_Decode "[]"] obtain buf where
    b: "str_Encode ''hello'' = Inr buf"
    and r: "\<forall>y. str_Decode buf [] = (None, y) \<longrightarrow>
              Get str_Decode (store_with [(''a'', ''hello'')]) ''a'' (Some []) = (None, Some y)"
    by blast
  from b enc have "buf = ''hello''" by simp
  with r dec have get: "Get str_Decode (store_with [(''a'', ''hello'')]) ''a'' (Some [])
     = (None, Some ''hello'')"
    by blast
  show ?thesis
    by (intro conjI) (rule put enc dec get)+
qed

text \<open>
  C2. A key that was never put, or whose last mutation was a successful Delete, is
  absent: from a store opened on a file that did not exist, after any run of Put and
  Delete calls in whose log the key was never put or was last deleted, \<open>Get\<close> of the
  key fails with \<open>ErrNotFound\<close> for every destination (also none) and leaves it as it
  was, and \<open>Delete\<close> of the key fails with \<open>ErrNotFound\<close> and leaves the store as it was.
\<close>

theorem absent_key_NotFound:
  assumes fresh: "backing_file e = None" and opn: "Open path e commit0 = Inr kvs0"
    and run: "run Encode kvs0 cs = (log, kvs)"
    and hist: "never_put_or_deleted key log"
  shows "Get Decode kvs key dst = (Some ErrNotFound, dst)
       \<and> Delete kvs commit key = (Some ErrNotFound, kvs)"
proof -
  from store_inv_Open_new [OF fresh opn] have inv0: "store_inv kvs0" and e0: "entries kvs0 = []"
    by simp_all
  from Open_cases [OF opn] have op0: "opened (db kvs0)" by simp
  from run_keys [OF op0 inv0 run, of key] hist e0
  have op: "opened (db kvs)" and inv: "store_inv kvs" and absent: "key \<notin> fst ` set (entries kvs)"
    by (auto simp: never_put_or_deleted_def split: list.splits)
  from inv obtain b where b: "container kvs = Some b"
    by (auto simp: store_inv_def split: option.splits)
  with absent have "key \<notin> fst ` set b" by (simp add: entries_def)
  from Get_absent [OF op b this] Delete_absent [OF op b this] show ?thesis by simp
qed


theorem absent_key_NotFound_witness:
  "backing_file fresh_env = None
   \<and> Open ''test.db'' fresh_env None = Inr (store_with [])
   \<and> run str_Encode (store_with [])
        [CallPut ''a'' (Some ''hello'') None, CallPut ''b'' (Some ''x'') None,
         CallDelete ''a'' None]
       = ([(CallPut ''a'' (Some ''hello'') None, None), (CallPut ''b'' (Some ''x'') None, None),
           (CallDelete ''a'' None, None)],
          store_with [(''b'', ''x'')])
   \<and> never_put_or_deleted ''a''
        [(CallPut ''a'' (Some ''hello'') None, None :: error option),
         (CallPut ''b'' (Some ''x'') None, None), (CallDelete ''a'' None, None)]
   \<and> Get str_Decode (store_with [(''b'', ''x'')]) ''a'' (Some []) = (Some ErrNotFound, Some [])
   \<and> Delete (store_with [(''b'', ''x'')]) None ''a''
       = (Some ErrNotFound, store_with [(''b'', ''x'')])"
proof -
  have fresh: "backing_file fresh_env = None"
    by (simp add: fresh_env_def)
  have opn: "Open ''test.db'' fresh_env None = Inr (store_with [])"
    by (simp add: facade_defs sample_defs)
  have run: "run str_Encode (store_with [])
        [CallPut ''a'' (Some ''hello'') None, CallPut ''b'' (Some ''x'') None,
         CallDelete ''a'' None]
       = ([(CallPut ''a'' (Some ''hello'') None, None), (CallPut ''b'' (Some ''x'') None, None),
           (CallDelete ''a'' None, None)],
          store_with [(''b'', ''x'')])"
    by (simp add: facade_defs sample_defs)
  have hist: "never_put_or_deleted ''a''
        [(CallPut ''a'' (Some ''hello'') None, None :: error option),
         (CallPut ''b'' (Some ''x'') None, None), (CallDelete ''a'' None, None)]"
    by (simp add: never_put_or_deleted_def)
  from absent_key_NotFound [OF fresh opn run hist, of str_Decode "Some []" None]
    fresh opn run hist
  show ?thesis by simp
qed

text \<open>
  C3. Overwrite is last-write-wins: on a store whose container is in key order, after
  \<open>Put\<close> of \<open>v1\<close> and then \<open>Put\<close> of \<open>v2\<close> under the same key both succeed, \<open>Get\<close> of
  the key yields the value decode-equal to \<open>v2\<close>, and the container holds exactly one
  entry for the key, after the first Put and after the second.
\<close>

theorem overwrite_last_write_wins:
  assumes sorted: "sorted_bucket (entries kvs)"
    and put1: "Put Encode kvs commit1 key (Some v1) = (None, kvs1)"
    and put2: "Put Encode kvs1 commit2 key (Some v2) = (None, kvs2)"
    and codec: "\<And>buf. Encode v2 = Inr buf \<Longrightarrow> Decode buf d = (None, y)"
  shows "Get Decode kvs2 key (Some d) = (None, Some y)
       \<and> length (filter (\<lambda>e. fst e = key) (entries kvs1)) = 1
       \<and> length (filter (\<lambda>e. fst e = key) (entries kvs2)) = 1"
proof -
  from Put_success [OF put1] obtain buf1 b where
    b: "container kvs = Some b" and kvs1: "kvs1 = set_container kvs (node_put key buf1 b)"
    by blast
  from sorted b have sb: "sorted_bucket b" by (simp add: entries_def)
  from Put_success [OF put2] kvs1 obtain buf2 where
    kvs2: "kvs2 = set_container kvs1 (node_put key buf2 (node_put key buf1 b))"
    by auto
  have one1: "length (filter (\<lambda>e. fst e = key) (entries kvs1)) = 1"
    unfolding kvs1 by (simp add: count_key_node_put [OF sb])
  have one2: "length (filter (\<lambda>e. fst e = key) (entries kvs2)) = 1"
    unfolding kvs2 by (simp add: count_key_node_put [OF sorted_node_put [OF sb]])
  from Get_after_Put [OF put2, of Decode d] obtain buf where
    enc: "Encode v2 = Inr buf"
    and get: "Get Decode kvs2 key (Some d) = (case Decode buf d of (r, y) \<Rightarrow> (r, Some y))"
    by blast
  from codec [OF enc] get one1 one2 show ?thesis by simp
qed

theorem overwrite_last_write_wins_witness:
  "sorted_bucket (entries (store_with [(''b'', ''x'')]))
   \<and> Put str_Encode (store_with [(''b'', ''x'')]) None ''a'' (Some ''hello'')
       = (None, store_with [(''a'', ''hello''), (''b'', ''x'')])
   \<and> Put str_Encode (store_with [(''a'', ''hello''), (''b'', ''x'')]) None ''a'' (Some ''world'')
       = (None, store_with [(''a'', ''world''), (''b'', ''x'')])
   \<and> Get str_Decode (store_with [(''a'', ''world''), (''b'', ''x'')]) ''a'' (Some [])
       = (None, Some ''world'')
   \<and> length (filter (\<lambda>e. fst e = ''a'') (entries (store_with [(''a'', ''hello''), (''b'', ''x'')]))) = 1
   \<and> length (filter (\<lambda>e. fst e = ''a'') (entries (store_with [(''a'', ''world''), (''b'', ''x'')]))) = 1"
proof -
  have sorted: "sorted_bucket (entries (store_with [(''b'', ''x'')]))"
    by (simp add: sorted_bucket_def entries_def container_def facade_defs sample_defs)
  have put1: "Put str_Encode (store_with [(''b'', ''x'')]) None ''a'' (Some ''hello'')
       = (None, store_with [(''a'', ''hello''), (''b'', ''x'')])"
    by (simp add: facade_defs sample_defs)
  have put2: "Put str_Encode (store_with [(''a'', ''hello''), (''b'', ''x'')]) None ''a''
         (Some ''world'')
       = (None, store_with [(''a'', ''world''), (''b'', ''x'')])"
    by (simp add: facade_defs sample_defs)
  have codec: "\<And>buf. str_Encode ''world'' = Inr buf \<Longrightarrow> str_Decode buf [] = (None, ''world'')"
    by (simp add: sample_defs)
  from overwrite_last_write_wins
         [where Decode = str_Decode and d = "[]" and y = "''world''", OF sorted put1 put2 codec]
    sorted put1 put2
  show ?thesis by blast
qed

text \<open>
  C4. Delete removes exactly the entry for its key: on a store whose container is in
  key order, after \<open>Put\<close> of the key and then \<open>Delete\<close> of the key both succeed, \<open>Get\<close>
  of the key fails with \<open>ErrNotFound\<close>; the container is the one before the Delete
  without the key's entry, so every other key keeps its value, and every other
  container of the file is as it was.
\<close>

theorem delete_removes_only_key:
  assumes sorted: "sorted_bucket (entries kvs)"
    and put: "Put Encode kvs commit1 key (Some v) = (None, kvs1)"
    and del: "Delete kvs1 commit2 key = (None, kvs2)"
  shows "Get Decode kvs2 key dst = (Some ErrNotFound, dst)
       \<and> entries kvs2 = filter (\<lambda>e. fst e \<noteq> key) (entries kvs1)
       \<and> (\<forall>k. k \<noteq> key \<longrightarrow> map_of (entries kvs2) k = map_of (entries kvs1) k)
       \<and> (\<forall>name. name \<noteq> bucketName \<longrightarrow> buckets (db kvs2) name = buckets (db kvs1) name)"
proof -
  from Put_success [OF put] obtain buf b where
    b: "container kvs = Some b" and kvs1: "kvs1 = set_container kvs (node_put key buf b)"
    by blast
  let ?b1 = "node_put key buf b"
  from sorted b have "sorted_bucket b" by (simp add: entries_def)
  then have sb1: "sorted_bucket ?b1" by (rule sorted_node_put)
  have c1: "container kvs1 = Some ?b1" by (simp add: kvs1)
  from Delete_success [OF del] c1 have op1: "opened (db kvs1)"
    and at: "seek ?b1 key < length ?b1" "fst (?b1 ! seek ?b1 key) = key"
    and kvs2: "kvs2 = set_container kvs1 (take (seek ?b1 key) ?b1 @ drop (Suc (seek ?b1 key)) ?b1)"
    by auto
  from delete_at_seek [OF sb1 at] kvs2
  have kvs2': "kvs2 = set_container kvs1 (filter (\<lambda>e. fst e \<noteq> key) ?b1)" by simp
  have ent: "entries kvs2 = filter (\<lambda>e. fst e \<noteq> key) (entries kvs1)"
    by (simp add: kvs2' entries_def c1)
  have "key \<notin> fst ` set (filter (\<lambda>e. fst e \<noteq> key) ?b1)" by auto
  from Get_absent [OF _ _ this, of kvs2 Decode dst] op1
  have get: "Get Decode kvs2 key dst = (Some ErrNotFound, dst)" by (simp add: kvs2')
  have others: "\<forall>k. k \<noteq> key \<longrightarrow> map_of (entries kvs2) k = map_of (entries kvs1) k"
    by (simp add: ent map_of_filter_key)
  have frame: "\<forall>name. name \<noteq> bucketName \<longrightarrow> buckets (db kvs2) name = buckets (db kvs1) name"
    by (simp add: kvs2' set_container_def)
  from get ent others frame show ?thesis by blast
qed

theorem delete_removes_only_key_witness:
  "sorted_bucket (entries (store_with [(''b'', ''x'')]))
   \<and> Put str_Encode (store_with [(''b'', ''x'')]) None ''a'' (Some ''hello'')
       = (None, store_with [(''a'', ''hello''), (''b'', ''x'')])
   \<and> Delete (store_with [(''a'', ''hello''), (''b'', ''x'')]) None ''a''
       = (None, store_with [(''b'', ''x'')])
   \<and> Get str_Decode (store_with [(''b'', ''x'')]) ''a'' (Some []) = (Some ErrNotFound, Some [])
   \<and> entries (store_with [(''b'', ''x'')])
       = filter (\<lambda>e. fst e \<noteq> ''a'') (entries (store_with [(''a'', ''hello''), (''b'', ''x'')]))
   \<and> map_of (entries (store_with [(''b'', ''x'')])) ''b''
       = map_of (entries (store_with [(''a'', ''hello''), (''b'', ''x'')])) ''b''"
proof -
  have sorted: "sorted_bucket (entries (store_with [(''b'', ''x'')]))"
    by (simp add: sorted_bucket_def entries_def container_def facade_defs sample_defs)
  have put: "Put str_Encode (store_with [(''b'', ''x'')]) None ''a'' (Some ''hello'')
       = (None, store_with [(''a'', ''hello''), (''b'', ''x'')])"
    by (simp add: facade_defs sample_defs)
  have del: "Delete (store_with [(''a'', ''hello''), (''b'', ''x'')]) None ''a''
       = (None, store_with [(''b'', ''x'')])"
    by (simp add: facade_defs sample_defs)
  have ne: "''b'' \<noteq> ''a''" by simp
  note r = delete_removes_only_key [OF sorted put del, of str_Decode "Some []"]
  have get: "Get str_Decode (store_with [(''b'', ''x'')]) ''a'' (Some [])
               = (Some ErrNotFound, Some [])"
    by (rule r [THEN conjunct1])
  have ent: "entries (store_with [(''b'', ''x'')])
       = filter (\<lambda>e. fst e \<noteq> ''a'') (entries (store_with [(''a'', ''hello''), (''b'', ''x'')]))"
    by (rule r [THEN conjunct2, THEN conjunct1])
  have other: "map_of (entries (store_with [(''b'', ''x'')])) ''b''
       = map_of (entries (store_with [(''a'', ''hello''), (''b'', ''x'')])) ''b''"
    by (rule r [THEN conjunct2, THEN conjunct2, THEN conjunct1, rule_format, OF ne])
  show ?thesis
    by (intro conjI) (rule sorted put del get ent other)+
qed

text \<open>
  C5. \<open>Put\<close> of a nil value fails with \<open>ErrBadValue\<close> and returns the store as it was,
  whatever the key, the store (open or closed, with or without the container), the
  encoder and the commit result: neither the encoder nor the engine has a say in the
  outcome, and a value stored under the key before stays.
\<close>

theorem Put_nil_BadValue:
  "Put Encode kvs commit key None = (Some ErrBadValue, kvs)"
  by (simp add: Put_def)

text \<open>
  C6, as the specification states it, fails on the code: \<open>Open\<close> has no timeout
  argument. With the lock held by another process for 200 milliseconds, a caller of the
  specification's open operation who allows one second gets a store, and the code's
  \<open>Open\<close> fails with the timeout error.
\<close>

theorem Open_timeout_counterexample:
  "Open ''test.db'' \<lparr>backing_file = None, open_failure = None, lock_held_for = 200 * Millisecond\<rparr> None
     = Inl ErrTimeout
   \<and> spec_Open ''test.db'' Second
       \<lparr>backing_file = None, open_failure = None, lock_held_for = 200 * Millisecond\<rparr> None
     = Inr (store_with [])"
  by (simp add: spec_Open_def facade_defs sample_defs)

text \<open>
  C6, amended. \<open>Open\<close> takes the path only and always waits for the lock with the fixed
  timeout of 50 milliseconds: it is the specification's open operation at that timeout,
  and when the file can be opened and another process holds the lock for more than 50
  milliseconds, \<open>Open\<close> fails with the timeout error; it calls the engine once.
\<close>

theorem Open_fixed_timeout:
  "Open path e commit = spec_Open path (50 * Millisecond) e commit
   \<and> (open_failure e = None \<and> 50 * Millisecond < lock_held_for e
        \<longrightarrow> Open path e commit = Inl ErrTimeout)"
  by (simp add: Open_def spec_Open_def bolt_Open_def flock_def Millisecond_def)

theorem Open_fixed_timeout_witness:
  "open_failure \<lparr>backing_file = None, open_failure = None, lock_held_for = 200 * Millisecond\<rparr> = None
   \<and> 50 * Millisecond
       < lock_held_for \<lparr>backing_file = None, open_failure = None, lock_held_for = 200 * Millisecond\<rparr>
   \<and> Open ''test.db'' \<lparr>backing_file = None, open_failure = None, lock_held_for = 200 * Millisecond\<rparr> None
       = Inl ErrTimeout
   \<and> Open ''test.db'' \<lparr>backing_file = None, open_failure = None, lock_held_for = 200 * Millisecond\<rparr> None
       = spec_Open ''test.db'' (50 * Millisecond)
           \<lparr>backing_file = None, open_failure = None, lock_held_for = 200 * Millisecond\<rparr> None"
proof -
  let ?e = "\<lparr>backing_file = None, open_failure = None, lock_held_for = 200 * Millisecond\<rparr>"
  have h1: "open_failure ?e = None" by simp
  have h2: "50 * Millisecond < lock_held_for ?e" by (simp add: Millisecond_def)
  note r = Open_fixed_timeout [of "''test.db''" ?e None]
  from r [THEN conjunct2, rule_format, OF conjI [OF h1 h2]] r [THEN conjunct1] h1 h2
  show ?thesis by (intro conjI) simp_all
qed

text \<open>
  C7. On an open store whose container is in key order, the seek-then-compare lookup
  of \<open>Get\<close> and \<open>Delete\<close> is the exact-match lookup: \<open>Get\<close> and \<open>Delete\<close> are the
  functions that look the key up directly; they succeed (with no destination, and with
  a commit that succeeds) exactly when the key is in the container, and on a key that
  is not there both return \<open>ErrNotFound\<close> and change nothing.
\<close>

theorem seek_compare_is_exact_match:
  assumes op: "opened (db kvs)" and b: "container kvs = Some b" and sorted: "sorted_bucket b"
  shows "Get Decode kvs key dst = spec_Get Decode b key dst
       \<and> Delete kvs commit key
           = (case spec_Delete b commit key of (r, b') \<Rightarrow> (r, set_container kvs b'))
       \<and> (fst (Get Decode kvs key None) = None) = (key \<in> fst ` set b)
       \<and> (fst (Delete kvs None key) = None) = (key \<in> fst ` set b)
       \<and> (key \<notin> fst ` set b \<longrightarrow>
            Get Decode kvs key dst = (Some ErrNotFound, dst)
            \<and> Delete kvs commit key = (Some ErrNotFound, kvs))"
proof -
  have get: "Get Decode kvs key dst = spec_Get Decode b key dst" for dst
  proof (cases "map_of b key")
    case None
    then have "key \<notin> fst ` set b" by (simp add: map_of_keys)
    from Get_absent [OF op b this] None show ?thesis
      by (simp add: spec_Get_def exact_match_def)
  next
    case (Some v)
    from seek_present [OF sorted Some] Some show ?thesis
      by (simp add: Get_open [OF op b] Cursor_Seek_def Let_def spec_Get_def exact_match_def)
  qed
  have del: "Delete kvs commit key
           = (case spec_Delete b commit key of (r, b') \<Rightarrow> (r, set_container kvs b'))" for commit
  proof (cases "map_of b key")
    case None
    then have "key \<notin> fst ` set b" by (simp add: map_of_keys)
    from Delete_absent [OF op b this] None show ?thesis
      by (simp add: spec_Delete_def exact_match_def set_container_same [OF b])
  next
    case (Some v)
    from seek_present [OF sorted Some] have at: "seek b key < length b" "fst (b ! seek b key) = key"
      by simp_all
    from delete_at_seek [OF sorted at] at Some show ?thesis
      by (simp add: Delete_open [OF op b] spec_Delete_def exact_match_def set_container_same [OF b]
               split: option.splits)
  qed
  have pres: "(key \<in> fst ` set b) = (\<exists>v. map_of b key = Some v)"
    using map_of_keys [of b key] by auto
  have g: "(fst (Get Decode kvs key None) = None) = (key \<in> fst ` set b)"
    by (auto simp: get spec_Get_def exact_match_def pres split: option.splits)
  have d: "(fst (Delete kvs None key) = None) = (key \<in> fst ` set b)"
    by (auto simp: del spec_Delete_def exact_match_def pres split: option.splits)
  have a: "key \<notin> fst ` set b \<longrightarrow>
            Get Decode kvs key dst = (Some ErrNotFound, dst)
            \<and> Delete kvs commit key = (Some ErrNotFound, kvs)"
    using Get_absent [OF op b] Delete_absent [OF op b] by blast
  from get del g d a show ?thesis by blast
qed

theorem seek_compare_is_exact_match_witness:
  "opened (db (store_with [(''a'', ''hello''), (''c'', ''y'')]))
   \<and> container (store_with [(''a'', ''hello''), (''c'', ''y'')]) = Some [(''a'', ''hello''), (''c'', ''y'')]
   \<and> sorted_bucket [(''a'', ''hello''), (''c'', ''y'')]
   \<and> ''b'' \<notin> fst ` set [(''a'', ''hello''), (''c'', ''y'')]
   \<and> Get str_Decode (store_with [(''a'', ''hello''), (''c'', ''y'')]) ''b'' (Some [])
       = (Some ErrNotFound, Some [])
   \<and> Delete (store_with [(''a'', ''hello''), (''c'', ''y'')]) None ''b''
       = (Some ErrNotFound, store_with [(''a'', ''hello''), (''c'', ''y'')])
   \<and> Get str_Decode (store_with [(''a'', ''hello''), (''c'', ''y'')]) ''b'' (Some [])
       = spec_Get str_Decode [(''a'', ''hello''), (''c'', ''y'')] ''b'' (Some [])"
proof -
  let ?b = "[(''a'', ''hello''), (''c'', ''y'')]"
  have op: "opened (db (store_with ?b))" by (simp add: store_with_def)
  have b: "container (store_with ?b) = Some ?b"
    by (simp add: container_def store_with_def Tx_Bucket_def bucketName_def)
  have sorted: "sorted_bucket ?b" by (simp add: sorted_bucket_def)
  have absent: "''b'' \<notin> fst ` set ?b" by simp
  note r = seek_compare_is_exact_match [OF op b sorted, of str_Decode "''b''" "Some []" None]
  note nf = r [THEN conjunct2, THEN conjunct2, THEN conjunct2, THEN conjunct2, rule_format,
               OF absent]
  show ?thesis
    by (intro conjI)
       (rule op b sorted absent nf [THEN conjunct1] nf [THEN conjunct2] r [THEN conjunct1])+
qed

text \<open>
  C8. For a key present in an open store, \<open>Get\<close> with no destination returns no error,
  for every decoder: the stored bytes are not decoded, so bytes that no decoder accepts
  are reported present all the same.
\<close>

theorem Get_nil_destination:
  assumes op: "opened (db kvs)" and b: "container kvs = Some b" and sorted: "sorted_bucket b"
    and present: "key \<in> fst ` set b"
  shows "Get Decode kvs key None = (None, None)"
proof -
  from seek_present_key [OF sorted present] show ?thesis
    by (cases "b ! seek b key") (simp add: Get_open [OF op b] Cursor_Seek_def Let_def)
qed

theorem Get_nil_destination_witness:
  "opened (db (store_with [(''a'', ''hello'')]))
   \<and> container (store_with [(''a'', ''hello'')]) = Some [(''a'', ''hello'')]
   \<and> sorted_bucket [(''a'', ''hello'')]
   \<and> ''a'' \<in> fst ` set [(''a'', ''hello'')]
   \<and> Get (\<lambda>buf d. (Some EncodingError, d)) (store_with [(''a'', ''hello'')]) ''a''
         (None :: string option)
       = (None, None)
   \<and> Get (\<lambda>buf d. (Some EncodingError, d)) (store_with [(''a'', ''hello'')]) ''a'' (Some ''dst'')
       = (Some EncodingError, Some ''dst'')"
proof -
  let ?b = "[(''a'', ''hello'')]"
  have op: "opened (db (store_with ?b))" by (simp add: store_with_def)
  have b: "container (store_with ?b) = Some ?b"
    by (simp add: container_def store_with_def Tx_Bucket_def bucketName_def)
  have sorted: "sorted_bucket ?b" by (simp add: sorted_bucket_def)
  have present: "''a'' \<in> fst ` set ?b" by simp
  have decode_fails:
    "Get (\<lambda>buf d. (Some EncodingError, d)) (store_with ?b) ''a'' (Some ''dst'')
       = (Some EncodingError, Some ''dst'')"
    by (simp add: facade_defs sample_defs)
  note r = Get_nil_destination [OF op b sorted present,
             of "\<lambda>buf d. (Some EncodingError, d :: string)"]
  show ?thesis
    by (intro conjI) (rule op b sorted present r decode_fails)+
qed

text \<open>
  C9. The container exists for the lifetime of a store: a store that \<open>Open\<close> returns
  has it, \<open>Put\<close>, \<open>Delete\<close> and \<open>Close\<close> keep it in every case (\<open>Get\<close> runs in a
  read-only transaction and returns no store), and so every reachable store has it.
\<close>

theorem container_exists:
  "(Open path e commit0 = Inr kvs0 \<longrightarrow> container kvs0 \<noteq> None)
   \<and> (container kvs \<noteq> None \<longrightarrow>
        container (snd (Put Encode kvs commit key val)) \<noteq> None
        \<and> container (snd (Delete kvs commit key)) \<noteq> None
        \<and> container (snd (Close kvs)) \<noteq> None)
   \<and> (reachable Encode kvs1 \<longrightarrow> container kvs1 \<noteq> None)"
  using container_Open container_Put container_Delete container_Close reachable_container
  by blast

theorem container_exists_witness:
  "Open ''test.db'' fresh_env None = Inr (store_with [])
   \<and> container (store_with []) \<noteq> None
   \<and> container (snd (Put str_Encode (store_with []) None ''a'' (Some ''hello''))) \<noteq> None
   \<and> container (snd (Delete (store_with []) None ''a'')) \<noteq> None
   \<and> container (snd (Close (store_with []))) \<noteq> None
   \<and> reachable str_Encode (store_with [(''a'', ''hello'')])
   \<and> container (store_with [(''a'', ''hello'')]) \<noteq> None"
proof -
  have opn: "Open ''test.db'' fresh_env None = Inr (store_with [])"
    by (simp add: facade_defs sample_defs)
  note r = container_exists [of "''test.db''" fresh_env None "store_with []" "store_with []"
             str_Encode None "''a''" "Some ''hello''" "store_with [(''a'', ''hello'')]"]
  have c0: "container (store_with []) \<noteq> None"
    by (rule r [THEN conjunct1, rule_format, OF opn])
  note ops = r [THEN conjunct2, THEN conjunct1, rule_format, OF c0]
  have c1: "container (store_with [(''a'', ''hello'')]) \<noteq> None"
    by (rule r [THEN conjunct2, THEN conjunct2, rule_format, OF reachable_sample])
  show ?thesis
    by (intro conjI)
       (rule opn c0 ops [THEN conjunct1] ops [THEN conjunct2, THEN conjunct1]
             ops [THEN conjunct2, THEN conjunct2] reachable_sample c1)+
qed

text \<open>
  C10, as stated, fails on the code: \<open>Put\<close> encodes the value before it reaches the
  engine (lines 51-53), so with the empty key and a value the encoder rejects, \<open>Put\<close>
  fails with the encoder's error, which is not an engine error.
\<close>

theorem empty_key_Put_counterexample:
  "Open ''test.db'' fresh_env None = Inr (store_with [])
   \<and> Put (\<lambda>v. Inl EncodingError) (store_with []) None [] (Some ''v'')
       = (Some EncodingError, store_with [])
   \<and> \<not> engine_error EncodingError"
  by (simp add: facade_defs sample_defs)

text \<open>
  C10, amended. On every reachable open store, \<open>Put\<close> of a non-nil value under the
  empty key never succeeds and changes nothing: it fails with the encoder's error when
  the value does not encode, and otherwise with the engine's error \<open>ErrKeyRequired\<close>.
  So no entry with the empty key is stored, and \<open>Get\<close> and \<open>Delete\<close> of the empty key
  fail with \<open>ErrNotFound\<close>.
\<close>

theorem empty_key_never_stored:
  assumes reach: "reachable Encode kvs" and op: "opened (db kvs)"
  shows "Put Encode kvs commit [] (Some v)
           = (case Encode v of
                Inl err \<Rightarrow> (Some err, kvs)
              | Inr buf \<Rightarrow> (Some ErrKeyRequired, kvs))
       \<and> engine_error ErrKeyRequired
       \<and> [] \<notin> fst ` set (entries kvs)
       \<and> Get Decode kvs [] dst = (Some ErrNotFound, dst)
       \<and> Delete kvs commit' [] = (Some ErrNotFound, kvs)"
proof -
  from reachable_store_inv [OF reach] obtain b where
    b: "container kvs = Some b" and ne: "list_all (\<lambda>e. fst e \<noteq> []) b"
    by (auto simp: store_inv_def split: option.splits)
  from ne have absent: "[] \<notin> fst ` set b" by (auto simp: list_all_iff)
  have put: "Put Encode kvs commit [] (Some v)
           = (case Encode v of
                Inl err \<Rightarrow> (Some err, kvs)
              | Inr buf \<Rightarrow> (Some ErrKeyRequired, kvs))"
    using op b by (simp add: Put_def Update_def Bucket_Put_def container_def split: sum.splits)
  from absent b have ent: "[] \<notin> fst ` set (entries kvs)" by (simp add: entries_def)
  from put ent Get_absent [OF op b absent] Delete_absent [OF op b absent]
  show ?thesis by simp
qed

theorem empty_key_never_stored_witness:
  "reachable str_Encode (store_with [(''a'', ''hello'')])
   \<and> opened (db (store_with [(''a'', ''hello'')]))
   \<and> Put str_Encode (store_with [(''a'', ''hello'')]) None [] (Some ''v'')
       = (Some ErrKeyRequired, store_with [(''a'', ''hello'')])
   \<and> [] \<notin> fst ` set (entries (store_with [(''a'', ''hello'')]))
   \<and> Get str_Decode (store_with [(''a'', ''hello'')]) [] (Some ''dst'')
       = (Some ErrNotFound, Some ''dst'')
   \<and> Delete (store_with [(''a'', ''hello'')]) None [] = (Some ErrNotFound, store_with [(''a'', ''hello'')])"
proof -
  have op: "opened (db (store_with [(''a'', ''hello'')]))" by (simp add: store_with_def)
  note r = empty_key_never_stored [OF reachable_sample op, of None "''v''" str_Decode
             "Some ''dst''" None]
  have put: "Put str_Encode (store_with [(''a'', ''hello'')]) None [] (Some ''v'')
       = (Some ErrKeyRequired, store_with [(''a'', ''hello'')])"
    using r [THEN conjunct1] by (simp add: str_Encode_def)
  note rest = r [THEN conjunct2, THEN conjunct2]
  show ?thesis
    by (intro conjI)
       (rule reachable_sample op put rest [THEN conjunct1] rest [THEN conjunct2, THEN conjunct1]
             rest [THEN conjunct2, THEN conjunct2])+
qed

end
